theory Spec2Isabelle
  imports Main "HOL-Library.Char_ord" "HOL-Library.List_Lexorder" "HOL-Library.Multiset"
begin

section \<open>Data model of \<open>word_definitions/build.js\<close>\<close>

text \<open>
  The converter reads one JSON object per line. The fields it touches are typed as the
  dictionary dump provides them: \<open>word\<close> is a string, \<open>pos\<close> a string that may be
  missing, \<open>senses\<close> an array of objects whose \<open>raw_glosses\<close> and \<open>glosses\<close> are
  arrays of strings that may be missing, \<open>etymology_text\<close> a string that may be missing.
  Every record has \<open>word\<close> and \<open>senses\<close>. A missing property reads as \<open>undefined\<close> in
  JavaScript and is \<open>None\<close> here; the only falsy string is the empty one.
  Strings are lists of characters compared by character code, which is the order of
  JavaScript's default \<open>sort()\<close>.
\<close>

record sense =
  raw_glosses :: "string list option"
  glosses :: "string list option"

record word_json =
  word :: string
  pos :: "string option"
  senses :: "sense list"
  etymology_text :: "string option"

text \<open>The object literal \<open>{ pos: ..., defs: ... }\<close> of \<open>writeWord\<close>: it has these two
  properties and no other.\<close>

record out_obj =
  out_pos :: "string option"
  out_defs :: "string list"

text \<open>The values \<open>JSON.stringify\<close> is applied to, as syntax trees: an object is the list
  of the members that are written, in order.\<close>

datatype json = JNull | JStr string | JArr "json list" | JObj "(string \<times> json) list"

text \<open>\<open>process.exit(n)\<close>.\<close>

datatype halt = Exit nat

text \<open>
  The module-level variables: the three counters and the object \<open>words\<close>, used as a map
  from key to array. Own string keys of a JavaScript object are enumerated in insertion
  order, so \<open>words\<close> is an association list in insertion order. \<open>warned\<close> counts how
  often the \<open>console.warn\<close> branch of \<open>writeWord\<close> was taken.
\<close>

record state =
  written :: nat
  skipped :: nat
  writable :: nat
  words :: "(string \<times> out_obj list) list"
  warned :: nat

definition init :: state where
  "init = \<lparr>written = 0, skipped = 0, writable = 0, words = [], warned = 0\<rparr>"

text \<open>What a run leaves behind: the exit status and the lines of \<open>defs.json\<close>, or
  \<open>None\<close> when no such file is left.\<close>

record result =
  exit_code :: nat
  defs_json :: "json list option"

section \<open>\<open>writeWord\<close>\<close>

definition is_az :: "char \<Rightarrow> bool" where
  "is_az c = (CHR ''a'' \<le> c \<and> c \<le> CHR ''z'')"

text \<open>\<open>/[^a-z]/.test(s)\<close>: some character of \<open>s\<close> is outside \<open>a\<close>-\<open>z\<close>.\<close>

definition test_non_az :: "string \<Rightarrow> bool" where
  "test_non_az s = list_ex (\<lambda>c. \<not> is_az c) s"

text \<open>Truthiness of a string: every string but the empty one.\<close>

definition truthy :: "string \<Rightarrow> bool" where
  "truthy s = (s \<noteq> [])"

text \<open>\<open>v || d\<close> for a string property \<open>v\<close> that may be undefined.\<close>

definition or_else :: "string option \<Rightarrow> string \<Rightarrow> string" where
  "or_else v d = (case v of None \<Rightarrow> d | Some s \<Rightarrow> if truthy s then s else d)"

text \<open>\<open>sense.raw_glosses || sense.glosses || []\<close>. An array is truthy in JavaScript,
  the empty one too, so \<open>||\<close> moves on only from a missing property.\<close>

definition sense_glosses :: "sense \<Rightarrow> string list" where
  "sense_glosses sense =
     (case raw_glosses sense of
        Some r \<Rightarrow> r
      | None \<Rightarrow> (case glosses sense of Some g \<Rightarrow> g | None \<Rightarrow> []))"

definition flatMap :: "('a \<Rightarrow> 'b list) \<Rightarrow> 'a list \<Rightarrow> 'b list" where
  "flatMap f xs = concat (map f xs)"

text \<open>Lines 34-37: the object literal.\<close>

definition new_out_obj :: "word_json \<Rightarrow> out_obj" where
  "new_out_obj word_json =
     \<lparr>out_pos = pos word_json, out_defs = flatMap sense_glosses (senses word_json)\<rparr>"

text \<open>\<open>out_obj.etymology_text\<close>: the object literal has no such property, so the read
  yields \<open>undefined\<close> whatever the input record holds.\<close>

definition out_obj_etymology_text :: "out_obj \<Rightarrow> string option" where
  "out_obj_etymology_text obj = None"

text \<open>Lines 38-40: the fallback pushed onto an empty \<open>defs\<close>.\<close>

definition fallback :: "out_obj \<Rightarrow> out_obj" where
  "fallback obj =
     (if length (out_defs obj) = 0
      then obj\<lparr>out_defs := out_defs obj @ [or_else (out_obj_etymology_text obj) ''No definition found'']\<rparr>
      else obj)"

definition build_out_obj :: "word_json \<Rightarrow> out_obj" where
  "build_out_obj word_json = fallback (new_out_obj word_json)"

text \<open>Line 53.\<close>

definition word_key :: "string \<Rightarrow> string" where
  "word_key w = w @ ''_tr''"

text \<open>Lines 54-55: \<open>words[k] = words[k] || []; words[k].push(obj)\<close>. An existing array is
  truthy and stays where it is; a new key goes to the end.\<close>

definition push_word :: "string \<Rightarrow> out_obj \<Rightarrow> (string \<times> out_obj list) list \<Rightarrow> (string \<times> out_obj list) list" where
  "push_word k obj ws =
     (let ws1 = (case map_of ws k of Some v \<Rightarrow> ws | None \<Rightarrow> ws @ [(k, [])])
      in map (\<lambda>(k', v). if k' = k then (k', v @ [obj]) else (k', v)) ws1)"

text \<open>\<open>writeWord\<close>, lines 27-61. The progress notice of lines 58-60 only prints.\<close>

definition writeWord :: "word_json \<Rightarrow> state \<Rightarrow> halt + state" where
  "writeWord word_json st =
     (if test_non_az (word word_json) then Inr (st\<lparr>skipped := skipped st + 1\<rparr>)
      else
        let obj = build_out_obj word_json in
        if list_ex (\<lambda>d. \<not> truthy d) (out_defs obj) then Inl (Exit 1)
        else
          let st1 = (if length (out_defs obj) = 0 then st\<lparr>warned := warned st + 1\<rparr> else st)
          in Inr (st1\<lparr>words := push_word (word_key (word word_json)) obj (words st1),
                       written := written st1 + 1\<rparr>))"

section \<open>The pipeline\<close>

text \<open>
  The \<open>jsonlines\<close> parser is a library outside the repository. Each line of the input
  is handed to it after \<open>writable\<close> is incremented; it answers with one \<open>data\<close> event
  carrying the parsed record, or with none. A line is therefore given as \<open>Some record\<close>
  or \<open>None\<close>.
\<close>

definition on_line :: "word_json option \<Rightarrow> state \<Rightarrow> halt + state" where
  "on_line l st =
     (let st1 = st\<lparr>writable := writable st + 1\<rparr>
      in case l of None \<Rightarrow> Inr st1 | Some r \<Rightarrow> writeWord r st1)"

fun ingest :: "word_json option list \<Rightarrow> state \<Rightarrow> halt + state" where
  "ingest [] st = Inr st"
| "ingest (l # ls) st = (case on_line l st of Inl e \<Rightarrow> Inl e | Inr st' \<Rightarrow> ingest ls st')"

text \<open>\<open>key.replace(/_tr$/, '')\<close>.\<close>

definition strip_tr :: "string \<Rightarrow> string" where
  "strip_tr k =
     (if 3 \<le> length k \<and> drop (length k - 3) k = ''_tr'' then take (length k - 3) k else k)"

definition json_of_out_obj :: "out_obj \<Rightarrow> json" where
  "json_of_out_obj obj =
     JObj ((case out_pos obj of None \<Rightarrow> [] | Some p \<Rightarrow> [(''pos'', JStr p)])
           @ [(''defs'', JArr (map JStr (out_defs obj)))])"

text \<open>The value \<open>[key.replace(/_tr$/, ''), words[key]]\<close> of line 86.\<close>

definition output_line :: "(string \<times> out_obj list) list \<Rightarrow> string \<Rightarrow> json" where
  "output_line ws key =
     JArr [JStr (strip_tr key),
           (case map_of ws key of None \<Rightarrow> JNull | Some es \<Rightarrow> JArr (map json_of_out_obj es))]"

definition sorted_keys :: "state \<Rightarrow> string list" where
  "sorted_keys st = sort (map fst (words st))"

definition written_lines :: "state \<Rightarrow> json list" where
  "written_lines st = map (output_line (words st)) (sorted_keys st)"

text \<open>
  The \<open>end\<close> handler, lines 77-101. \<open>fs.createWriteStream\<close> opens the file in a later
  turn of the event loop, and \<open>stream.write\<close> and \<open>stream.end\<close> only queue: the lines of
  \<open>written_lines\<close> are what is handed to the stream. When the counters disagree,
  \<open>process.exit(1)\<close> on line 99 ends the process in the same turn, before anything queued
  is carried out, and no \<open>defs.json\<close> is left. When they agree the handler returns, the
  queue is carried out, and the process ends with status 0.
\<close>

definition on_end :: "state \<Rightarrow> result" where
  "on_end st =
     (let stream = written_lines st
      in if written st + skipped st \<noteq> writable st
         then \<lparr>exit_code = 1, defs_json = None\<rparr>
         else \<lparr>exit_code = 0, defs_json = Some stream\<rparr>)"

definition run :: "word_json option list \<Rightarrow> result" where
  "run ls =
     (case ingest ls init of
        Inl (Exit c) \<Rightarrow> \<lparr>exit_code = c, defs_json = None\<rparr>
      | Inr st \<Rightarrow> on_end st)"

text \<open>The word an output line starts with.\<close>

fun line_key :: "json \<Rightarrow> string" where
  "line_key (JArr (JStr k # _)) = k"
| "line_key _ = []"

text \<open>The records the parser emitted, and those of them \<open>writeWord\<close> does not skip.\<close>

definition emitted :: "word_json option list \<Rightarrow> word_json list" where
  "emitted ls = concat (map (\<lambda>l. case l of None \<Rightarrow> [] | Some r \<Rightarrow> [r]) ls)"

definition qualifying :: "word_json option list \<Rightarrow> word_json list" where
  "qualifying ls = filter (\<lambda>r. \<not> test_non_az (word r)) (emitted ls)"

text \<open>A record whose final \<open>defs\<close> holds no falsy element.\<close>

definition good_defs :: "word_json \<Rightarrow> bool" where
  "good_defs r = (\<not> list_ex (\<lambda>d. \<not> truthy d) (out_defs (build_out_obj r)))"

text \<open>The entries the non-skipped records of the input give for a key, in input order.\<close>

definition entries_for :: "string \<Rightarrow> word_json option list \<Rightarrow> out_obj list" where
  "entries_for k ls = map build_out_obj (filter (\<lambda>r. word_key (word r) = k) (qualifying ls))"

definition output_keys :: "result \<Rightarrow> string list" where
  "output_keys res = (case defs_json res of None \<Rightarrow> [] | Some out \<Rightarrow> map line_key out)"

text \<open>Reading an output line back: the names of an object's members, the entries of a
  line, the \<open>defs\<close> array of an entry.\<close>

fun member_names :: "json \<Rightarrow> string list" where
  "member_names (JObj ms) = map fst ms"
| "member_names _ = []"

fun line_entries :: "json \<Rightarrow> json list" where
  "line_entries (JArr [k, JArr es]) = es"
| "line_entries _ = []"

fun entry_defs :: "json \<Rightarrow> json list option" where
  "entry_defs (JObj ms) = (case map_of ms ''defs'' of Some (JArr ds) \<Rightarrow> Some ds | _ \<Rightarrow> None)"
| "entry_defs _ = None"

definition entry_has_defs :: "json \<Rightarrow> bool" where
  "entry_has_defs e = (case entry_defs e of None \<Rightarrow> False | Some ds \<Rightarrow> ds \<noteq> [])"

section \<open>The specification's wording\<close>

text \<open>
  The flattening rule as the specification words it: a sense gives its \<open>raw_glosses\<close>
  if present and non-empty, else its \<open>glosses\<close> if present and non-empty, else nothing.
\<close>

definition present_nonempty :: "string list option \<Rightarrow> bool" where
  "present_nonempty v = (case v of None \<Rightarrow> False | Some xs \<Rightarrow> xs \<noteq> [])"

definition spec_sense_glosses :: "sense \<Rightarrow> string list" where
  "spec_sense_glosses s =
     (if present_nonempty (raw_glosses s) then the (raw_glosses s)
      else if present_nonempty (glosses s) then the (glosses s)
      else [])"

definition spec_defs :: "word_json \<Rightarrow> string list" where
  "spec_defs r = concat (map spec_sense_glosses (senses r))"

text \<open>The same rule with presence alone deciding: a sense gives its \<open>raw_glosses\<close> if
  present, else its \<open>glosses\<close> if present, else nothing.\<close>

definition present :: "string list option \<Rightarrow> bool" where
  "present v = (case v of None \<Rightarrow> False | Some xs \<Rightarrow> True)"

definition amended_sense_glosses :: "sense \<Rightarrow> string list" where
  "amended_sense_glosses s =
     (if present (raw_glosses s) then the (raw_glosses s)
      else if present (glosses s) then the (glosses s)
      else [])"

definition amended_defs :: "word_json \<Rightarrow> string list" where
  "amended_defs r = concat (map amended_sense_glosses (senses r))"

text \<open>A word matching \<open>^[a-z]+$\<close>.\<close>

definition spec_lowercase_word :: "string \<Rightarrow> bool" where
  "spec_lowercase_word w = (w \<noteq> [] \<and> list_all is_az w)"

section \<open>A sample input\<close>

text \<open>Six lines: two records for \<open>run\<close>, one for \<open>cat\<close>, a line the parser gives no
  record for, a capitalised word, and a record with neither glosses nor \<open>pos\<close>; and the
  state they leave. \<open>ex_bad\<close> carries an empty gloss.\<close>

definition ex_cat :: word_json where
  "ex_cat = \<lparr>word = ''cat'', pos = Some ''noun'',
             senses = [\<lparr>raw_glosses = None, glosses = Some [''a small domesticated feline'']\<rparr>],
             etymology_text = None\<rparr>"

definition ex_dog :: word_json where
  "ex_dog = \<lparr>word = ''Dog'', pos = Some ''noun'',
             senses = [\<lparr>raw_glosses = None, glosses = Some [''a dog'']\<rparr>],
             etymology_text = None\<rparr>"

definition ex_run_verb :: word_json where
  "ex_run_verb = \<lparr>word = ''run'', pos = Some ''verb'',
             senses = [\<lparr>raw_glosses = Some [''(intransitive) to move fast''], glosses = Some [''to move fast'']\<rparr>,
                       \<lparr>raw_glosses = None, glosses = Some [''to flow'']\<rparr>],
             etymology_text = None\<rparr>"

definition ex_run_noun :: word_json where
  "ex_run_noun = \<lparr>word = ''run'', pos = Some ''noun'',
             senses = [\<lparr>raw_glosses = None, glosses = Some [''an act of running'']\<rparr>],
             etymology_text = None\<rparr>"

definition ex_bare :: word_json where
  "ex_bare = \<lparr>word = ''cab'', pos = None,
             senses = [\<lparr>raw_glosses = None, glosses = None\<rparr>],
             etymology_text = None\<rparr>"

definition ex_lines :: "word_json option list" where
  "ex_lines = [Some ex_run_verb, Some ex_cat, None, Some ex_dog, Some ex_run_noun, Some ex_bare]"

definition ex_state :: state where
  "ex_state =
     \<lparr>written = 4, skipped = 1, writable = 6,
      words =
        [(''run_tr'', [\<lparr>out_pos = Some ''verb'', out_defs = [''(intransitive) to move fast'', ''to flow'']\<rparr>,
                       \<lparr>out_pos = Some ''noun'', out_defs = [''an act of running'']\<rparr>]),
         (''cat_tr'', [\<lparr>out_pos = Some ''noun'', out_defs = [''a small domesticated feline'']\<rparr>]),
         (''cab_tr'', [\<lparr>out_pos = None, out_defs = [''No definition found'']\<rparr>])],
      warned = 0\<rparr>"

definition ex_bad :: word_json where
  "ex_bad = \<lparr>word = ''bad'', pos = Some ''adj'',
             senses = [\<lparr>raw_glosses = Some [''not good'', ''''], glosses = None\<rparr>],
             etymology_text = None\<rparr>"

text \<open>The same records with every line parsed, and a record with the empty word.\<close>

definition ex_empty :: word_json where
  "ex_empty = \<lparr>word = '''', pos = None, senses = [], etymology_text = None\<rparr>"

definition ex_clean_lines :: "word_json option list" where
  "ex_clean_lines =
     [Some ex_run_verb, Some ex_cat, Some ex_dog, Some ex_run_noun, Some ex_bare, Some ex_empty]"

definition ex_clean_state :: state where
  "ex_clean_state =
     \<lparr>written = 5, skipped = 1, writable = 6,
      words =
        [(''run_tr'', [\<lparr>out_pos = Some ''verb'', out_defs = [''(intransitive) to move fast'', ''to flow'']\<rparr>,
                       \<lparr>out_pos = Some ''noun'', out_defs = [''an act of running'']\<rparr>]),
         (''cat_tr'', [\<lparr>out_pos = Some ''noun'', out_defs = [''a small domesticated feline'']\<rparr>]),
         (''cab_tr'', [\<lparr>out_pos = None, out_defs = [''No definition found'']\<rparr>]),
         (''_tr'', [\<lparr>out_pos = None, out_defs = [''No definition found'']\<rparr>])],
      warned = 0\<rparr>"

section \<open>Properties of \<open>writeWord\<close>\<close>

lemmas model_defs = init_def on_line_def writeWord_def test_non_az_def is_az_def
  build_out_obj_def new_out_obj_def fallback_def flatMap_def sense_glosses_def or_else_def
  out_obj_etymology_text_def truthy_def word_key_def push_word_def on_end_def
  written_lines_def sorted_keys_def output_line_def strip_tr_def json_of_out_obj_def run_def
  emitted_def qualifying_def

lemma build_defs_nonempty: "out_defs (build_out_obj r) \<noteq> []"
  by (simp add: build_out_obj_def fallback_def)

lemma writeWord_skip:
  "test_non_az (word r) \<Longrightarrow> writeWord r st = Inr (st\<lparr>skipped := skipped st + 1\<rparr>)"
  by (simp add: writeWord_def)

lemma writeWord_halt:
  "\<not> test_non_az (word r) \<Longrightarrow> \<not> good_defs r \<Longrightarrow> writeWord r st = Inl (Exit 1)"
  by (simp add: writeWord_def good_defs_def)

lemma writeWord_store:
  "\<not> test_non_az (word r) \<Longrightarrow> good_defs r
   \<Longrightarrow> writeWord r st =
       Inr (st\<lparr>words := push_word (word_key (word r)) (build_out_obj r) (words st),
               written := written st + 1\<rparr>)"
  by (simp add: writeWord_def build_defs_nonempty Let_def good_defs_def)

lemma map_of_map_upd:
  "map_of (map (\<lambda>(k', v). if k' = k then (k', f v) else (k', v)) ws) k' =
     (if k' = k then map_option f (map_of ws k) else map_of ws k')"
  by (induction ws) auto

lemma map_of_push_word:
  "map_of (push_word k obj ws) k' =
     (if k' = k then Some ((case map_of ws k of None \<Rightarrow> [] | Some v \<Rightarrow> v) @ [obj])
      else map_of ws k')"
  by (auto simp: push_word_def map_of_map_upd[where f="\<lambda>v. v @ [obj]"] map_add_def
      split: option.splits)

lemma keys_map_upd:
  "map fst (map (\<lambda>(k', v). if k' = k then (k', f v) else (k', v)) ws) = map fst ws"
  by (induction ws) auto

lemma keys_push_word:
  "map fst (push_word k obj ws) =
     (if k \<in> set (map fst ws) then map fst ws else map fst ws @ [k])"
  by (auto simp: push_word_def keys_map_upd[where f="\<lambda>v. v @ [obj]"] map_of_eq_None_iff
      split: option.splits dest: map_of_SomeD intro: rev_image_eqI)

lemma writeWord_stored_entry:
  assumes "\<not> test_non_az (word r)" "writeWord r st = Inr st'"
  shows "map_of (words st') (word_key (word r)) =
           Some ((case map_of (words st) (word_key (word r)) of None \<Rightarrow> [] | Some v \<Rightarrow> v)
                 @ [build_out_obj r])"
proof (cases "good_defs r")
  case False
  with assms show ?thesis by (simp add: writeWord_halt)
next
  case True
  with assms show ?thesis by (auto simp: writeWord_store map_of_push_word)
qed

lemma new_out_obj_amended: "out_defs (new_out_obj r) = amended_defs r"
proof -
  have "sense_glosses = amended_sense_glosses"
    by (rule ext)
      (simp add: sense_glosses_def amended_sense_glosses_def present_def split: option.splits)
  then show ?thesis by (simp add: new_out_obj_def flatMap_def amended_defs_def)
qed

lemma build_keeps_nonempty:
  "out_defs (new_out_obj r) \<noteq> [] \<Longrightarrow> build_out_obj r = new_out_obj r"
  by (simp add: build_out_obj_def fallback_def)

section \<open>Properties of the aggregation\<close>

lemma ingest_append:
  "ingest (xs @ ys) st = (case ingest xs st of Inl e \<Rightarrow> Inl e | Inr st' \<Rightarrow> ingest ys st')"
  by (induction xs arbitrary: st) (auto split: sum.splits)

lemma ingest_snoc_Inr:
  "ingest (xs @ [x]) st = Inr st' \<longleftrightarrow> (\<exists>st0. ingest xs st = Inr st0 \<and> on_line x st0 = Inr st')"
  by (auto simp: ingest_append split: sum.splits)


lemma emitted_simps [simp]:
  "emitted [] = []"
  "emitted (xs @ ys) = emitted xs @ emitted ys"
  "emitted (None # xs) = emitted xs"
  "emitted (Some r # xs) = r # emitted xs"
  by (simp_all add: emitted_def)

lemma qualifying_simps [simp]:
  "qualifying [] = []"
  "qualifying (xs @ ys) = qualifying xs @ qualifying ys"
  "qualifying (None # xs) = qualifying xs"
  "qualifying (Some r # xs) = (if test_non_az (word r) then qualifying xs else r # qualifying xs)"
  by (simp_all add: qualifying_def)

lemma on_line_cases:
  assumes "on_line l st = Inr st'"
  obtains
    (dropped) "l = None" "st' = st\<lparr>writable := writable st + 1\<rparr>"
  | (skip) r where "l = Some r" "test_non_az (word r)"
      "st' = st\<lparr>writable := writable st + 1, skipped := skipped st + 1\<rparr>"
  | (store) r where "l = Some r" "\<not> test_non_az (word r)" "good_defs r"
      "st' = st\<lparr>writable := writable st + 1,
                 words := push_word (word_key (word r)) (build_out_obj r) (words st),
                 written := written st + 1\<rparr>"
proof (cases l)
  case None
  with assms dropped show ?thesis by (simp add: on_line_def)
next
  case (Some r)
  show ?thesis
  proof (cases "test_non_az (word r)")
    case True
    with assms Some skip show ?thesis by (simp add: on_line_def writeWord_skip)
  next
    case False
    show ?thesis
    proof (cases "good_defs r")
      case True
      with assms Some False store show ?thesis
        by (simp add: on_line_def writeWord_store)
    next
      case bad: False
      with assms Some False show ?thesis
        by (simp add: on_line_def writeWord_halt)
    qed
  qed
qed

lemma ingest_counters:
  "ingest ls init = Inr st \<Longrightarrow>
     writable st = length ls \<and> written st = length (qualifying ls) \<and>
     skipped st = length (filter (\<lambda>r. test_non_az (word r)) (emitted ls)) \<and> warned st = 0"
proof (induction ls arbitrary: st rule: rev_induct)
  case Nil
  then show ?case by (auto simp: init_def)
next
  case (snoc x xs)
  from snoc.prems obtain st0 where st0: "ingest xs init = Inr st0" and step: "on_line x st0 = Inr st"
    by (auto simp: ingest_snoc_Inr)
  from step snoc.IH[OF st0] show ?case
    by (cases rule: on_line_cases) auto
qed

lemma ingest_good:
  "ingest ls init = Inr st \<Longrightarrow> r \<in> set (qualifying ls) \<Longrightarrow> good_defs r"
proof (induction ls arbitrary: st rule: rev_induct)
  case Nil
  then show ?case by simp
next
  case (snoc x xs)
  from snoc.prems obtain st0 where st0: "ingest xs init = Inr st0" and step: "on_line x st0 = Inr st"
    by (auto simp: ingest_snoc_Inr)
  from step snoc.IH[OF st0] snoc.prems(2) show ?case
    by (cases rule: on_line_cases) (auto split: if_splits)
qed

lemma ingest_words:
  "ingest ls init = Inr st \<Longrightarrow>
     map_of (words st) k = (if entries_for k ls = [] then None else Some (entries_for k ls))"
proof (induction ls arbitrary: st k rule: rev_induct)
  case Nil
  then show ?case by (auto simp: init_def entries_for_def)
next
  case (snoc x xs)
  from snoc.prems obtain st0 where st0: "ingest xs init = Inr st0" and step: "on_line x st0 = Inr st"
    by (auto simp: ingest_snoc_Inr)
  note IH = snoc.IH[OF st0]
  from step show ?case
  proof (cases rule: on_line_cases)
    case dropped
    then show ?thesis using IH by (simp add: entries_for_def)
  next
    case (skip r)
    then show ?thesis using IH by (simp add: entries_for_def)
  next
    case (store r)
    then show ?thesis using IH[of k] IH[of "word_key (word r)"]
      by (auto simp: entries_for_def map_of_push_word)
  qed
qed

lemma ingest_distinct:
  "ingest ls init = Inr st \<Longrightarrow> distinct (map fst (words st))"
proof (induction ls arbitrary: st rule: rev_induct)
  case Nil
  then show ?case by (auto simp: init_def)
next
  case (snoc x xs)
  from snoc.prems obtain st0 where st0: "ingest xs init = Inr st0" and step: "on_line x st0 = Inr st"
    by (auto simp: ingest_snoc_Inr)
  from step snoc.IH[OF st0] show ?case
    by (cases rule: on_line_cases) (auto simp: keys_push_word)
qed

lemma ingest_keys:
  "ingest ls init = Inr st \<Longrightarrow> set (map fst (words st)) = word_key ` word ` set (qualifying ls)"
proof -
  assume a: "ingest ls init = Inr st"
  have "k \<in> set (map fst (words st)) \<longleftrightarrow> k \<in> word_key ` word ` set (qualifying ls)" for k
  proof -
    have "k \<in> set (map fst (words st)) \<longleftrightarrow> map_of (words st) k \<noteq> None"
      by (simp add: map_of_eq_None_iff)
    also have "\<dots> \<longleftrightarrow> entries_for k ls \<noteq> []"
      by (simp add: ingest_words[OF a])
    also have "\<dots> \<longleftrightarrow> k \<in> word_key ` word ` set (qualifying ls)"
      by (auto simp: entries_for_def filter_empty_conv)
    finally show ?thesis .
  qed
  then show ?thesis by blast
qed

section \<open>Order of the keys\<close>

lemma strip_word_key: "strip_tr (word_key w) = w"
  by (simp add: strip_tr_def word_key_def)

lemma underscore_less_az: "is_az c \<Longrightarrow> CHR ''_'' < c"
  by (simp add: is_az_def less_char_def less_eq_char_def)

lemma test_non_az_Cons: "test_non_az (c # w) = (\<not> is_az c \<or> test_non_az w)"
  by (simp add: test_non_az_def)

lemma test_non_az_Nil: "\<not> test_non_az []"
  by (simp add: test_non_az_def)

lemma word_key_less:
  "\<not> test_non_az w1 \<Longrightarrow> \<not> test_non_az w2 \<Longrightarrow> (word_key w1 < word_key w2) = (w1 < w2)"
proof (induction w1 arbitrary: w2)
  case Nil
  then show ?case
    by (cases w2) (auto simp: word_key_def test_non_az_Cons dest: underscore_less_az)
next
  case (Cons c cs)
  show ?case
  proof (cases w2)
    case Nil
    with Cons.prems show ?thesis
      using underscore_less_az[of c] by (auto simp: word_key_def test_non_az_Cons)
  next
    case (Cons d ds)
    with Cons.prems Cons.IH[of ds] show ?thesis
      by (auto simp: word_key_def test_non_az_Cons)
  qed
qed

lemma line_key_output_line: "line_key (output_line ws k) = strip_tr k"
  by (simp add: output_line_def)

lemma written_keys: "map line_key (written_lines st) = map strip_tr (sorted_keys st)"
  by (simp add: written_lines_def line_key_output_line)

lemma ingest_keys_az:
  assumes "ingest ls init = Inr st" "k \<in> set (map fst (words st))"
  obtains w where "k = word_key w" "\<not> test_non_az w" "w \<in> word ` set (qualifying ls)"
proof -
  from assms have "k \<in> word_key ` word ` set (qualifying ls)"
    by (simp only: ingest_keys)
  then obtain r where "r \<in> set (qualifying ls)" "k = word_key (word r)" by blast
  moreover from this have "\<not> test_non_az (word r)" by (simp add: qualifying_def)
  ultimately show ?thesis using that by blast
qed

lemma written_keys_strict:
  assumes "ingest ls init = Inr st"
  shows "sorted_wrt (<) (map line_key (written_lines st))"
proof -
  let ?ks = "sorted_keys st"
  have set_ks: "set ?ks = set (map fst (words st))" by (simp add: sorted_keys_def)
  have "distinct ?ks" using ingest_distinct[OF assms] by (simp add: sorted_keys_def)
  moreover have "sorted ?ks" by (simp add: sorted_keys_def)
  ultimately have strict: "sorted_wrt (<) ?ks" by (simp add: strict_sorted_iff)
  have "sorted_wrt (\<lambda>a b. strip_tr a < strip_tr b) ?ks"
  proof (rule sorted_wrt_mono_rel[OF _ strict])
    fix a b assume "a \<in> set ?ks" "b \<in> set ?ks" "a < b"
    from \<open>a \<in> set ?ks\<close> set_ks obtain wa where wa: "a = word_key wa" "\<not> test_non_az wa"
      using ingest_keys_az[OF assms] by metis
    from \<open>b \<in> set ?ks\<close> set_ks obtain wb where wb: "b = word_key wb" "\<not> test_non_az wb"
      using ingest_keys_az[OF assms] by metis
    from \<open>a < b\<close> wa wb show "strip_tr a < strip_tr b"
      by (simp add: strip_word_key word_key_less)
  qed
  then show ?thesis by (simp add: written_keys sorted_wrt_map)
qed

lemma run_Inr: "ingest ls init = Inr st \<Longrightarrow> run ls = on_end st"
  by (simp add: run_def)

lemma run_agree:
  "ingest ls init = Inr st \<Longrightarrow> written st + skipped st = writable st \<Longrightarrow>
     run ls = \<lparr>exit_code = 0, defs_json = Some (written_lines st)\<rparr>"
  by (simp add: run_Inr on_end_def Let_def)

lemma run_disagree:
  "ingest ls init = Inr st \<Longrightarrow> written st + skipped st \<noteq> writable st \<Longrightarrow>
     run ls = \<lparr>exit_code = 1, defs_json = None\<rparr>"
  by (simp add: run_Inr on_end_def Let_def)

lemma run_halted:
  "ingest ls init = Inl e \<Longrightarrow> defs_json (run ls) = None"
  by (cases e) (simp add: run_def)

section \<open>The written lines\<close>

lemma az_iff_spec: "(\<not> test_non_az w) = (w = [] \<or> spec_lowercase_word w)"
  by (auto simp: test_non_az_def spec_lowercase_word_def list_ex_iff list_all_iff)

lemma output_keys_run:
  assumes "ingest ls init = Inr st" "written st + skipped st = writable st"
  shows "output_keys (run ls) = map strip_tr (sorted_keys st)"
  using run_agree[OF assms] by (simp add: output_keys_def written_keys)

lemma set_output_keys:
  assumes "ingest ls init = Inr st" "written st + skipped st = writable st"
  shows "set (output_keys (run ls)) = word ` set (qualifying ls)"
proof -
  have "set (output_keys (run ls)) = strip_tr ` set (map fst (words st))"
    by (simp add: output_keys_run[OF assms] sorted_keys_def)
  also have "\<dots> = strip_tr ` word_key ` word ` set (qualifying ls)"
    by (simp only: ingest_keys[OF assms(1)])
  also have "\<dots> = word ` set (qualifying ls)"
    by (simp add: image_image strip_word_key)
  finally show ?thesis .
qed

lemma output_keys_strict: "sorted_wrt (<) (output_keys (run ls))"
proof (cases "ingest ls init")
  case (Inl e)
  then show ?thesis by (simp add: output_keys_def run_halted)
next
  case (Inr st)
  show ?thesis
  proof (cases "written st + skipped st = writable st")
    case True
    with written_keys_strict[OF Inr] run_agree[OF Inr True] show ?thesis
      by (simp add: output_keys_def)
  next
    case False
    with run_disagree[OF Inr False] show ?thesis by (simp add: output_keys_def)
  qed
qed


lemma words_entry:
  assumes "ingest ls init = Inr st" "(k, es) \<in> set (words st)"
  shows "es = entries_for k ls" "es \<noteq> []"
proof -
  from assms(2) ingest_distinct[OF assms(1)] have "map_of (words st) k = Some es" by simp
  with ingest_words[OF assms(1), of k] show "es = entries_for k ls" "es \<noteq> []"
    by (auto split: if_splits)
qed

lemma entries_for_defs: "e \<in> set (entries_for k ls) \<Longrightarrow> out_defs e \<noteq> []"
  by (auto simp: entries_for_def build_defs_nonempty)

lemma entry_has_defs_json: "entry_has_defs (json_of_out_obj obj) = (out_defs obj \<noteq> [])"
  by (simp add: entry_has_defs_def json_of_out_obj_def split: option.splits)

lemma stored_entries_nonempty:
  assumes "ingest ls init = Inr st"
  shows "list_all (\<lambda>(k, es). list_all (\<lambda>e. out_defs e \<noteq> []) es) (words st)"
  using words_entry(1)[OF assms] entries_for_defs by (fastforce simp: list_all_iff)

lemma written_entries_nonempty:
  assumes "ingest ls init = Inr st"
  shows "list_all (\<lambda>line. list_all entry_has_defs (line_entries line)) (written_lines st)"
proof -
  have "list_all entry_has_defs (line_entries (output_line (words st) k))"
    if "k \<in> set (map fst (words st))" for k
  proof -
    from that obtain es where "(k, es) \<in> set (words st)" by auto
    with ingest_distinct[OF assms] have m: "map_of (words st) k = Some es" by simp
    from \<open>(k, es) \<in> set (words st)\<close> have "es = entries_for k ls"
      by (rule words_entry(1)[OF assms])
    then have "\<forall>e \<in> set es. out_defs e \<noteq> []" using entries_for_defs by blast
    with m show ?thesis
      by (simp add: output_line_def list_all_iff entry_has_defs_json)
  qed
  then show ?thesis by (simp add: written_lines_def sorted_keys_def list_all_iff)
qed


lemma word_key_inj: "(word_key a = word_key b) = (a = b)"
  by (simp add: word_key_def)

lemma entries_for_word:
  "\<not> test_non_az w \<Longrightarrow>
   entries_for (word_key w) ls = map build_out_obj (filter (\<lambda>r. word r = w) (emitted ls))"
proof -
  assume az: "\<not> test_non_az w"
  have "filter (\<lambda>r. word_key (word r) = word_key w) (filter (\<lambda>r. \<not> test_non_az (word r)) rs)
          = filter (\<lambda>r. word r = w) rs" for rs :: "word_json list"
    using az by (induction rs) (auto simp: word_key_inj)
  then show ?thesis by (simp only: entries_for_def qualifying_def)
qed


lemmas ex_defs = ex_cat_def ex_dog_def ex_run_verb_def ex_run_noun_def ex_bare_def
  ex_lines_def ex_state_def

lemma ex_ingest: "ingest ex_lines init = Inr ex_state"
  by (simp add: ex_defs model_defs)

lemmas ex_clean_defs = ex_cat_def ex_dog_def ex_run_verb_def ex_run_noun_def ex_bare_def
  ex_empty_def ex_clean_lines_def ex_clean_state_def

lemma ex_clean_ingest: "ingest ex_clean_lines init = Inr ex_clean_state"
  by (simp add: ex_clean_defs model_defs)


section \<open>The claims\<close>

text \<open>
  C1. An empty flattened \<open>defs\<close> should fall back to the record's \<open>etymology_text\<close> when
  that field is present. Line 39 reads the field from \<open>out_obj\<close>, which does not have it,
  so the placeholder is stored although the record carries an etymology.
\<close>

theorem fallback_ignores_etymology_text:
  "writeWord
     \<lparr>word = ''cat'', pos = Some ''noun'',
      senses = [\<lparr>raw_glosses = None, glosses = None\<rparr>],
      etymology_text = Some ''From Latin cattus''\<rparr> init
   = Inr (init\<lparr>words := [(''cat_tr'',
                 [\<lparr>out_pos = Some ''noun'', out_defs = [''No definition found'']\<rparr>])],
              written := 1\<rparr>)"
  by (simp add: model_defs)

text \<open>
  C2, as stated: a sense whose \<open>raw_glosses\<close> is present but empty and whose \<open>glosses\<close>
  is non-empty contributes its \<open>glosses\<close>. It does not: the first sense below gives
  nothing, and only the second sense's gloss is stored.
\<close>

theorem empty_raw_glosses_hides_glosses:
  "spec_defs \<lparr>word = ''run'', pos = Some ''verb'',
              senses = [\<lparr>raw_glosses = Some [], glosses = Some [''to move fast'']\<rparr>,
                        \<lparr>raw_glosses = None, glosses = Some [''to flow'']\<rparr>],
              etymology_text = None\<rparr> = [''to move fast'', ''to flow'']
   \<and> writeWord \<lparr>word = ''run'', pos = Some ''verb'',
              senses = [\<lparr>raw_glosses = Some [], glosses = Some [''to move fast'']\<rparr>,
                        \<lparr>raw_glosses = None, glosses = Some [''to flow'']\<rparr>],
              etymology_text = None\<rparr> init
     = Inr (init\<lparr>words := [(''run_tr'',
                   [\<lparr>out_pos = Some ''verb'', out_defs = [''to flow'']\<rparr>])],
                written := 1\<rparr>)"
  by (simp add: model_defs spec_defs_def spec_sense_glosses_def present_nonempty_def)

text \<open>
  C2, amended: for every non-skipped record that \<open>writeWord\<close> accepts, \<open>defs\<close> is built
  by concatenating, per sense in order, the sense's \<open>raw_glosses\<close> when present (empty or
  not), else its \<open>glosses\<close> when present, else nothing; when that sequence is non-empty
  it is the \<open>defs\<close> of the entry appended to the word's list.
\<close>

theorem defs_concatenate_present_glosses:
  assumes "\<not> test_non_az (word r)" "writeWord r st = Inr st'"
  shows "out_defs (new_out_obj r) = amended_defs r \<and>
         (amended_defs r \<noteq> [] \<longrightarrow>
            map_of (words st') (word_key (word r)) =
              Some ((case map_of (words st) (word_key (word r)) of None \<Rightarrow> [] | Some v \<Rightarrow> v)
                    @ [\<lparr>out_pos = pos r, out_defs = amended_defs r\<rparr>]))"
proof -
  have eq: "out_defs (new_out_obj r) = amended_defs r" by (rule new_out_obj_amended)
  have "build_out_obj r = \<lparr>out_pos = pos r, out_defs = amended_defs r\<rparr>"
    if "amended_defs r \<noteq> []"
    using that eq build_keeps_nonempty[of r] by (simp add: new_out_obj_def)
  with eq writeWord_stored_entry[OF assms] show ?thesis by simp
qed

theorem defs_concatenate_present_glosses_witness:
  "\<not> test_non_az ''run'' \<and>
   writeWord \<lparr>word = ''run'', pos = Some ''verb'',
              senses = [\<lparr>raw_glosses = Some [], glosses = Some [''to move fast'']\<rparr>,
                        \<lparr>raw_glosses = None, glosses = Some [''to flow'']\<rparr>,
                        \<lparr>raw_glosses = Some [''(intransitive) to jog''],
                         glosses = Some [''to jog'']\<rparr>],
              etymology_text = None\<rparr> init
     = Inr (init\<lparr>words := [(''run_tr'',
                   [\<lparr>out_pos = Some ''verb'',
                     out_defs = [''to flow'', ''(intransitive) to jog'']\<rparr>])],
                written := 1\<rparr>) \<and>
   amended_defs \<lparr>word = ''run'', pos = Some ''verb'',
              senses = [\<lparr>raw_glosses = Some [], glosses = Some [''to move fast'']\<rparr>,
                        \<lparr>raw_glosses = None, glosses = Some [''to flow'']\<rparr>,
                        \<lparr>raw_glosses = Some [''(intransitive) to jog''],
                         glosses = Some [''to jog'']\<rparr>],
              etymology_text = None\<rparr> = [''to flow'', ''(intransitive) to jog'']"
  using defs_concatenate_present_glosses
    [of "\<lparr>word = ''run'', pos = Some ''verb'',
              senses = [\<lparr>raw_glosses = Some [], glosses = Some [''to move fast'']\<rparr>,
                        \<lparr>raw_glosses = None, glosses = Some [''to flow'']\<rparr>,
                        \<lparr>raw_glosses = Some [''(intransitive) to jog''],
                         glosses = Some [''to jog'']\<rparr>],
              etymology_text = None\<rparr>" init
        "init\<lparr>words := [(''run_tr'',
                   [\<lparr>out_pos = Some ''verb'',
                     out_defs = [''to flow'', ''(intransitive) to jog'']\<rparr>])],
                written := 1\<rparr>"]
  by (simp add: model_defs amended_defs_def amended_sense_glosses_def present_def)

text \<open>
  C3, as stated: for every run the keys written are exactly the input words matching
  \<open>^[a-z]+$\<close>, and a record with the empty word is skipped and counted. The empty word
  has no character outside \<open>a\<close>-\<open>z\<close>, so the test of line 29 lets it through: it is
  stored under \<open>_tr\<close>, written as the empty key, and \<open>skipped\<close> stays 0. A run halted by
  a falsy definition writes no key at all, whatever matching words it has read, and
  neither does a run whose counters disagree at the end.
\<close>

theorem empty_word_is_written:
  "set (output_keys (run [Some \<lparr>word = '''', pos = Some ''noun'', senses = [], etymology_text = None\<rparr>]))
     \<noteq> set (filter spec_lowercase_word
            (map word (emitted [Some \<lparr>word = '''', pos = Some ''noun'', senses = [], etymology_text = None\<rparr>])))
   \<and> ingest [Some \<lparr>word = '''', pos = Some ''noun'', senses = [], etymology_text = None\<rparr>] init
     = Inr \<lparr>written = 1, skipped = 0, writable = 1,
            words = [(''_tr'', [\<lparr>out_pos = Some ''noun'', out_defs = [''No definition found'']\<rparr>])],
            warned = 0\<rparr>
   \<and> run [Some \<lparr>word = '''', pos = Some ''noun'', senses = [], etymology_text = None\<rparr>]
     = \<lparr>exit_code = 0,
        defs_json = Some [JArr [JStr '''',
          JArr [JObj [(''pos'', JStr ''noun''), (''defs'', JArr [JStr ''No definition found''])]]]]\<rparr>
   \<and> output_keys (run [Some \<lparr>word = ''cat'', pos = Some ''noun'', senses = [], etymology_text = None\<rparr>,
                        Some \<lparr>word = ''bad'', pos = Some ''adj'',
                              senses = [\<lparr>raw_glosses = None, glosses = Some ['''']\<rparr>],
                              etymology_text = None\<rparr>]) = []
   \<and> filter spec_lowercase_word
        (map word (emitted [Some \<lparr>word = ''cat'', pos = Some ''noun'', senses = [], etymology_text = None\<rparr>,
                        Some \<lparr>word = ''bad'', pos = Some ''adj'',
                              senses = [\<lparr>raw_glosses = None, glosses = Some ['''']\<rparr>],
                              etymology_text = None\<rparr>])) = [''cat'', ''bad'']
   \<and> output_keys (run [Some \<lparr>word = ''cat'', pos = Some ''noun'', senses = [], etymology_text = None\<rparr>,
                        None]) = []
   \<and> filter spec_lowercase_word
        (map word (emitted [Some \<lparr>word = ''cat'', pos = Some ''noun'', senses = [], etymology_text = None\<rparr>,
                        None])) = [''cat'']"
  by (simp add: model_defs output_keys_def spec_lowercase_word_def)

text \<open>
  C3, amended: for every run that no record halts, the records whose word has a character
  outside \<open>a\<close>-\<open>z\<close> are the ones counted in \<open>skipped\<close> and the others the ones counted
  in \<open>written\<close>; when the run also ends with exit status 0 (the counters agree), the set
  of keys written to the output equals exactly the set of input words with no character
  outside \<open>a\<close>-\<open>z\<close>, that is the words matching \<open>^[a-z]+$\<close> and the empty word.
\<close>

theorem output_keys_are_az_words:
  assumes "ingest ls init = Inr st"
  shows "skipped st = length (filter (\<lambda>r. test_non_az (word r)) (emitted ls)) \<and>
         written st = length (filter (\<lambda>r. \<not> test_non_az (word r)) (emitted ls)) \<and>
         (written st + skipped st = writable st \<longrightarrow>
            exit_code (run ls) = 0 \<and>
            defs_json (run ls) = Some (written_lines st) \<and>
            set (output_keys (run ls))
              = set (filter (\<lambda>w. \<not> test_non_az w) (map word (emitted ls)))) \<and>
         (\<not> test_non_az w) = (w = [] \<or> spec_lowercase_word w)"
proof -
  have "word ` set (qualifying ls) = set (filter (\<lambda>w. \<not> test_non_az w) (map word (emitted ls)))"
    by (auto simp: qualifying_def)
  with set_output_keys[OF assms] run_agree[OF assms] ingest_counters[OF assms] az_iff_spec[of w]
  show ?thesis by (simp add: qualifying_def)
qed

theorem output_keys_are_az_words_witness:
  "ingest ex_clean_lines init = Inr ex_clean_state \<and>
   written ex_clean_state + skipped ex_clean_state = writable ex_clean_state \<and>
   skipped ex_clean_state = 1 \<and> written ex_clean_state = 5 \<and>
   exit_code (run ex_clean_lines) = 0 \<and>
   defs_json (run ex_clean_lines) = Some (written_lines ex_clean_state) \<and>
   set (output_keys (run ex_clean_lines)) = {''run'', ''cat'', ''cab'', ''''}"
proof -
  have a: "written ex_clean_state + skipped ex_clean_state = writable ex_clean_state"
    "skipped ex_clean_state = 1" "written ex_clean_state = 5"
    by (simp_all add: ex_clean_state_def)
  have e: "set (filter (\<lambda>w. \<not> test_non_az w) (map word (emitted ex_clean_lines)))
             = {''run'', ''cat'', ''cab'', ''''}"
    by (auto simp: ex_clean_defs test_non_az_def is_az_def)
  from output_keys_are_az_words[OF ex_clean_ingest] a e ex_clean_ingest
  show ?thesis by simp
qed

text \<open>
  C4. After any input that does not halt the run, every entry stored in \<open>words\<close> has a
  non-empty \<open>defs\<close>, every entry of every written line has a non-empty \<open>defs\<close>
  array, and the warning branch of lines 46-51 was never taken.
\<close>

theorem stored_defs_nonempty:
  assumes "ingest ls init = Inr st"
  shows "list_all (\<lambda>(k, es). list_all (\<lambda>e. out_defs e \<noteq> []) es) (words st) \<and>
         list_all (\<lambda>line. list_all entry_has_defs (line_entries line)) (written_lines st) \<and>
         warned st = 0"
  using stored_entries_nonempty[OF assms] written_entries_nonempty[OF assms]
    ingest_counters[OF assms] by simp

theorem stored_defs_nonempty_witness:
  "ingest ex_lines init = Inr ex_state \<and>
   list_all (\<lambda>(k, es). list_all (\<lambda>e. out_defs e \<noteq> []) es) (words ex_state) \<and>
   list_all (\<lambda>line. list_all entry_has_defs (line_entries line)) (written_lines ex_state) \<and>
   warned ex_state = 0"
  by (rule conjI[OF ex_ingest stored_defs_nonempty[OF ex_ingest]])

text \<open>
  C5, as stated: for every run, every key of the aggregation map is written exactly once.
  A run halted by a falsy definition ends while the map holds keys, and writes none of
  them: after the first record below the map holds \<open>cat_tr\<close>, the second record exits,
  and no \<open>defs.json\<close> is left.
\<close>

theorem halted_run_writes_no_key:
  "ingest [Some \<lparr>word = ''cat'', pos = Some ''noun'', senses = [], etymology_text = None\<rparr>] init
     = Inr \<lparr>written = 1, skipped = 0, writable = 1,
            words = [(''cat_tr'', [\<lparr>out_pos = Some ''noun'', out_defs = [''No definition found'']\<rparr>])],
            warned = 0\<rparr>
   \<and> on_line (Some \<lparr>word = ''bad'', pos = Some ''adj'',
                      senses = [\<lparr>raw_glosses = None, glosses = Some ['''']\<rparr>],
                      etymology_text = None\<rparr>)
        \<lparr>written = 1, skipped = 0, writable = 1,
         words = [(''cat_tr'', [\<lparr>out_pos = Some ''noun'', out_defs = [''No definition found'']\<rparr>])],
         warned = 0\<rparr>
     = Inl (Exit 1)
   \<and> run [Some \<lparr>word = ''cat'', pos = Some ''noun'', senses = [], etymology_text = None\<rparr>,
           Some \<lparr>word = ''bad'', pos = Some ''adj'',
                 senses = [\<lparr>raw_glosses = None, glosses = Some ['''']\<rparr>],
                 etymology_text = None\<rparr>]
     = \<lparr>exit_code = 1, defs_json = None\<rparr>"
  by (simp add: model_defs)

text \<open>
  C5, amended: for every run, the lines written to the output are in strictly ascending
  order of their keys, with no key twice. For every run that no record halts, the lines
  handed to the output stream are in strictly ascending order of their keys, the keys of
  the aggregation map are distinct, and each of them is handed to the stream exactly once,
  with its suffix removed; when the run also ends with exit status 0 (the counters agree),
  these lines are the content of the output.
\<close>

theorem output_strictly_ascending:
  "sorted_wrt (<) (output_keys (run ls)) \<and>
   distinct (output_keys (run ls)) \<and>
   (ingest ls init = Inr st \<longrightarrow>
      sorted_wrt (<) (map line_key (written_lines st)) \<and>
      distinct (map line_key (written_lines st)) \<and>
      distinct (map fst (words st)) \<and>
      mset (map line_key (written_lines st)) = mset (map (\<lambda>(k, es). strip_tr k) (words st))) \<and>
   (ingest ls init = Inr st \<and> written st + skipped st = writable st \<longrightarrow>
      exit_code (run ls) = 0 \<and> defs_json (run ls) = Some (written_lines st))"
proof -
  have a: "sorted_wrt (<) (output_keys (run ls))" by (rule output_keys_strict)
  then have b: "distinct (output_keys (run ls))" by (simp add: strict_sorted_iff)
  have c: "sorted_wrt (<) (map line_key (written_lines st)) \<and>
      distinct (map line_key (written_lines st)) \<and>
      distinct (map fst (words st)) \<and>
      mset (map line_key (written_lines st)) = mset (map (\<lambda>(k, es). strip_tr k) (words st))"
    if h: "ingest ls init = Inr st"
  proof -
    have s: "sorted_wrt (<) (map line_key (written_lines st))"
      by (rule written_keys_strict[OF h])
    then have d: "distinct (map line_key (written_lines st))"
      by (simp add: strict_sorted_iff)
    have k: "distinct (map fst (words st))" by (rule ingest_distinct[OF h])
    have "map (\<lambda>(k, es). strip_tr k) (words st) = map strip_tr (map fst (words st))"
      by (simp add: case_prod_beta)
    then have "mset (map line_key (written_lines st))
                 = mset (map (\<lambda>(k, es). strip_tr k) (words st))"
      by (simp only: written_keys sorted_keys_def mset_map mset_sort)
    with s d k show ?thesis by simp
  qed
  have e: "exit_code (run ls) = 0 \<and> defs_json (run ls) = Some (written_lines st)"
    if "ingest ls init = Inr st" "written st + skipped st = writable st"
    using run_agree[OF that(1)] that(2) by simp
  from a b c e show ?thesis by blast
qed

theorem output_strictly_ascending_witness:
  "ingest ex_clean_lines init = Inr ex_clean_state \<and>
   written ex_clean_state + skipped ex_clean_state = writable ex_clean_state \<and>
   map fst (words ex_clean_state) = [''run_tr'', ''cat_tr'', ''cab_tr'', ''_tr''] \<and>
   output_keys (run ex_clean_lines) = ['''', ''cab'', ''cat'', ''run''] \<and>
   exit_code (run ex_clean_lines) = 0 \<and>
   defs_json (run ex_clean_lines) = Some (written_lines ex_clean_state) \<and>
   sorted_wrt (<) (output_keys (run ex_clean_lines)) \<and>
   distinct (output_keys (run ex_clean_lines)) \<and>
   sorted_wrt (<) (map line_key (written_lines ex_clean_state)) \<and>
   distinct (map line_key (written_lines ex_clean_state)) \<and>
   distinct (map fst (words ex_clean_state)) \<and>
   mset (map line_key (written_lines ex_clean_state))
     = mset (map (\<lambda>(k, es). strip_tr k) (words ex_clean_state))"
proof -
  have a: "written ex_clean_state + skipped ex_clean_state = writable ex_clean_state"
    by (simp add: ex_clean_state_def)
  have k: "map fst (words ex_clean_state) = [''run_tr'', ''cat_tr'', ''cab_tr'', ''_tr'']"
    by (simp add: ex_clean_state_def)
  have w: "map line_key (written_lines ex_clean_state) = ['''', ''cab'', ''cat'', ''run'']"
    by (simp add: ex_clean_state_def written_lines_def sorted_keys_def output_line_def
        strip_tr_def)
  note inst = output_strictly_ascending[of ex_clean_lines ex_clean_state]
  from inst ex_clean_ingest a
  have d: "defs_json (run ex_clean_lines) = Some (written_lines ex_clean_state)" by blast
  with w have o: "output_keys (run ex_clean_lines) = ['''', ''cab'', ''cat'', ''run'']"
    by (simp add: output_keys_def)
  from inst ex_clean_ingest a k o show ?thesis by blast
qed

text \<open>
  C6. For words of letters \<open>a\<close>-\<open>z\<close> only, removing the suffix from the escaped key gives
  the word back, and the escaping keeps the order: if \<open>w1 < w2\<close> then the key of \<open>w1\<close>
  is below the key of \<open>w2\<close>, and the writer's sort puts it first.
\<close>

theorem escape_roundtrip_and_order:
  assumes "\<not> test_non_az w1" "\<not> test_non_az w2"
  shows "strip_tr (word_key w1) = w1 \<and>
         (w1 < w2 \<longrightarrow> word_key w1 < word_key w2) \<and>
         (w1 < w2 \<longrightarrow> sort [word_key w2, word_key w1] = [word_key w1, word_key w2])"
proof -
  have "word_key w1 < word_key w2" if "w1 < w2"
    using that assms by (simp add: word_key_less)
  then show ?thesis by (auto simp: strip_word_key)
qed

theorem escape_roundtrip_and_order_witness:
  "\<not> test_non_az ''cat'' \<and> \<not> test_non_az ''cats'' \<and> ''cat'' < ''cats'' \<and>
   strip_tr (word_key ''cat'') = ''cat'' \<and>
   word_key ''cat'' < word_key ''cats'' \<and>
   sort [word_key ''cats'', word_key ''cat''] = [word_key ''cat'', word_key ''cats'']"
proof -
  have a: "\<not> test_non_az ''cat''" by (simp add: test_non_az_def is_az_def)
  have b: "\<not> test_non_az ''cats''" by (simp add: test_non_az_def is_az_def)
  have c: "''cat'' < ''cats''" by simp
  from escape_roundtrip_and_order[OF a b] a b c show ?thesis by blast
qed

text \<open>
  C7. For a record that is not skipped, \<open>writeWord\<close> exits with status 1 exactly when
  some element of the final \<open>defs\<close> is falsy (for a string: empty); otherwise it stores
  the entry and returns. When it exits, the run ends with status 1 and \<open>defs.json\<close> is
  never opened, whatever was read before and whatever follows.
\<close>

theorem halt_iff_falsy_def:
  assumes "\<not> test_non_az (word r)"
  shows "(writeWord r st = Inl (Exit 1)) = list_ex (\<lambda>d. \<not> truthy d) (out_defs (build_out_obj r)) \<and>
         (\<not> list_ex (\<lambda>d. \<not> truthy d) (out_defs (build_out_obj r)) \<longrightarrow>
            writeWord r st =
              Inr (st\<lparr>words := push_word (word_key (word r)) (build_out_obj r) (words st),
                      written := written st + 1\<rparr>)) \<and>
         (list_ex (\<lambda>d. \<not> truthy d) (out_defs (build_out_obj r)) \<and> ingest pre init = Inr st0 \<longrightarrow>
            run (pre @ Some r # post) = \<lparr>exit_code = 1, defs_json = None\<rparr>)"
proof (cases "good_defs r")
  case True
  with assms writeWord_store[OF assms True, of st] show ?thesis
    by (simp add: good_defs_def)
next
  case False
  have "on_line (Some r) s = Inl (Exit 1)" for s
    using assms False by (simp add: on_line_def writeWord_halt)
  then have "run (pre @ Some r # post) = \<lparr>exit_code = 1, defs_json = None\<rparr>"
    if "ingest pre init = Inr st0"
    using that by (simp add: run_def ingest_append)
  with assms False writeWord_halt[OF assms False, of st] show ?thesis
    by (simp add: good_defs_def)
qed

theorem halt_iff_falsy_def_witness:
  "\<not> test_non_az (word ex_bad) \<and>
   list_ex (\<lambda>d. \<not> truthy d) (out_defs (build_out_obj ex_bad)) \<and>
   ingest ex_lines init = Inr ex_state \<and>
   writeWord ex_bad ex_state = Inl (Exit 1) \<and>
   run (ex_lines @ Some ex_bad # [Some ex_cat]) = \<lparr>exit_code = 1, defs_json = None\<rparr>"
proof -
  have a: "\<not> test_non_az (word ex_bad)" by (simp add: ex_bad_def test_non_az_def is_az_def)
  have b: "list_ex (\<lambda>d. \<not> truthy d) (out_defs (build_out_obj ex_bad))"
    by (simp add: ex_bad_def model_defs)
  from halt_iff_falsy_def[OF a, of ex_state ex_lines ex_state "[Some ex_cat]"] a b ex_ingest
  show ?thesis by blast
qed

text \<open>
  C8. When the counters disagree the run should exit with a non-zero status after the
  output file has been fully written. It exits with status 1, but the exit of line 99
  comes in the same turn as the calls that only queue the lines, so what was queued is
  dropped: the lines below were handed to the stream, and no \<open>defs.json\<close> is left.
\<close>

theorem count_mismatch_drops_output:
  "ingest [Some \<lparr>word = ''cat'', pos = Some ''noun'',
                 senses = [\<lparr>raw_glosses = None, glosses = Some [''a small domesticated feline'']\<rparr>],
                 etymology_text = None\<rparr>,
           None] init
     = Inr \<lparr>written = 1, skipped = 0, writable = 2,
            words = [(''cat_tr'',
              [\<lparr>out_pos = Some ''noun'', out_defs = [''a small domesticated feline'']\<rparr>])],
            warned = 0\<rparr>
   \<and> written_lines \<lparr>written = 1, skipped = 0, writable = 2,
            words = [(''cat_tr'',
              [\<lparr>out_pos = Some ''noun'', out_defs = [''a small domesticated feline'']\<rparr>])],
            warned = 0\<rparr>
     = [JArr [JStr ''cat'',
         JArr [JObj [(''pos'', JStr ''noun''),
                     (''defs'', JArr [JStr ''a small domesticated feline''])]]]]
   \<and> run [Some \<lparr>word = ''cat'', pos = Some ''noun'',
                 senses = [\<lparr>raw_glosses = None, glosses = Some [''a small domesticated feline'']\<rparr>],
                 etymology_text = None\<rparr>,
           None]
     = \<lparr>exit_code = 1, defs_json = None\<rparr>"
  by (simp add: model_defs)

text \<open>
  C9. For a word of letters \<open>a\<close>-\<open>z\<close> only with at least one record in the input, the
  list stored under its key, and written on its line, holds one entry per such record, in
  the order of the records in the input.
\<close>

theorem entries_in_input_order:
  assumes "ingest ls init = Inr st" "\<not> test_non_az w" "filter (\<lambda>r. word r = w) (emitted ls) \<noteq> []"
  shows "map_of (words st) (word_key w) =
           Some (map build_out_obj (filter (\<lambda>r. word r = w) (emitted ls))) \<and>
         JArr [JStr w, JArr (map json_of_out_obj
                 (map build_out_obj (filter (\<lambda>r. word r = w) (emitted ls))))]
           \<in> set (written_lines st)"
proof -
  let ?es = "map build_out_obj (filter (\<lambda>r. word r = w) (emitted ls))"
  have e: "entries_for (word_key w) ls = ?es" by (rule entries_for_word[OF assms(2)])
  with assms(3) ingest_words[OF assms(1), of "word_key w"]
  have m: "map_of (words st) (word_key w) = Some ?es" by simp
  then have "word_key w \<in> set (sorted_keys st)"
    by (auto simp: sorted_keys_def dest: map_of_SomeD intro: rev_image_eqI)
  then have "output_line (words st) (word_key w) \<in> set (written_lines st)"
    by (simp add: written_lines_def)
  with m show ?thesis by (simp add: output_line_def strip_word_key)
qed

theorem entries_in_input_order_witness:
  "ingest ex_lines init = Inr ex_state \<and> \<not> test_non_az ''run'' \<and>
   filter (\<lambda>r. word r = ''run'') (emitted ex_lines) = [ex_run_verb, ex_run_noun] \<and>
   map_of (words ex_state) (word_key ''run'') = Some [build_out_obj ex_run_verb, build_out_obj ex_run_noun] \<and>
   JArr [JStr ''run'', JArr [json_of_out_obj (build_out_obj ex_run_verb),
                             json_of_out_obj (build_out_obj ex_run_noun)]]
     \<in> set (written_lines ex_state)"
proof -
  have a: "\<not> test_non_az ''run''" by (simp add: test_non_az_def is_az_def)
  have f: "filter (\<lambda>r. word r = ''run'') (emitted ex_lines) = [ex_run_verb, ex_run_noun]"
    by (simp add: ex_lines_def ex_cat_def ex_dog_def ex_run_verb_def ex_run_noun_def ex_bare_def)
  then have n: "filter (\<lambda>r. word r = ''run'') (emitted ex_lines) \<noteq> []" by simp
  from entries_in_input_order[OF ex_ingest a n] f ex_ingest a show ?thesis by simp
qed

text \<open>
  C10. The entry appended for a non-skipped record has the record's \<open>pos\<close> unchanged;
  when the record has no \<open>pos\<close>, the entry's is undefined and the encoded object has the
  single member \<open>defs\<close>.
\<close>

theorem pos_copied_verbatim:
  assumes "\<not> test_non_az (word r)" "writeWord r st = Inr st'"
  shows "map_of (words st') (word_key (word r)) =
           Some ((case map_of (words st) (word_key (word r)) of None \<Rightarrow> [] | Some v \<Rightarrow> v)
                 @ [build_out_obj r]) \<and>
         out_pos (build_out_obj r) = pos r \<and>
         member_names (json_of_out_obj (build_out_obj r)) =
           (case pos r of None \<Rightarrow> [''defs''] | Some p \<Rightarrow> [''pos'', ''defs'']) \<and>
         json_of_out_obj (build_out_obj r) =
           (case pos r of
              None \<Rightarrow> JObj [(''defs'', JArr (map JStr (out_defs (build_out_obj r))))]
            | Some p \<Rightarrow> JObj [(''pos'', JStr p), (''defs'', JArr (map JStr (out_defs (build_out_obj r))))])"
proof -
  have p: "out_pos (build_out_obj r) = pos r"
    by (simp add: build_out_obj_def fallback_def new_out_obj_def)
  then show ?thesis
    using writeWord_stored_entry[OF assms]
    by (simp add: json_of_out_obj_def split: option.splits)
qed

theorem pos_copied_verbatim_witness:
  "\<not> test_non_az (word ex_bare) \<and>
   writeWord ex_bare init
     = Inr (init\<lparr>words := [(''cab_tr'', [\<lparr>out_pos = None, out_defs = [''No definition found'']\<rparr>])],
                written := 1\<rparr>) \<and>
   pos ex_bare = None \<and>
   out_pos (build_out_obj ex_bare) = None \<and>
   member_names (json_of_out_obj (build_out_obj ex_bare)) = [''defs''] \<and>
   json_of_out_obj (build_out_obj ex_bare) = JObj [(''defs'', JArr [JStr ''No definition found''])]"
proof -
  have a: "\<not> test_non_az (word ex_bare)" by (simp add: ex_bare_def test_non_az_def is_az_def)
  have w: "writeWord ex_bare init
     = Inr (init\<lparr>words := [(''cab_tr'', [\<lparr>out_pos = None, out_defs = [''No definition found'']\<rparr>])],
                written := 1\<rparr>)"
    by (simp add: ex_bare_def model_defs)
  have d: "out_defs (build_out_obj ex_bare) = [''No definition found'']" "pos ex_bare = None"
    by (simp_all add: ex_bare_def model_defs)
  from pos_copied_verbatim[OF a w] a w d show ?thesis by simp
qed

end
